theory Spec2Isabelle
  imports Main "HOL-Library.AList"
begin

section \<open>Values\<close>

text \<open>
  The JavaScript values that reach the registry: event names are strings, callbacks and
  contexts are arbitrary values. Functions, objects and symbols are references, told apart
  by a number (their identity); the primitives carry their value. Strict equality
  \<^verbatim>\<open>===\<close> on these values is HOL equality: references are equal when they are the same
  reference, primitives when they have the same value. (Numbers are integers here; the
  floating-point value NaN, the one value that is not \<^verbatim>\<open>===\<close> to itself, is outside the
  model.)
\<close>

datatype jsval =
    Undefined
  | Null
  | Bool bool
  | Num int
  | Str string
  | Sym nat
  | Fn nat
  | Obj nat

text \<open>\<^verbatim>\<open>typeof v === 'function'\<close>\<close>

fun is_function :: "jsval \<Rightarrow> bool" where
  "is_function (Fn f) = True"
| "is_function v = False"

text \<open>JavaScript truthiness, as \<^verbatim>\<open>if (!v)\<close> tests it.\<close>

fun truthy :: "jsval \<Rightarrow> bool" where
  "truthy Undefined = False"
| "truthy Null = False"
| "truthy (Bool b) = b"
| "truthy (Num n) = (n \<noteq> 0)"
| "truthy (Str s) = (s \<noteq> [])"
| "truthy v = True"

datatype error =
    Error string
  | TypeError string
  | Thrown jsval

section \<open>The registry of src/Eventful.ts\<close>

text \<open>
  The private field \<^verbatim>\<open>#eventMap: Map<string, Array<[Function, any]>> | null\<close>.
  \<^verbatim>\<open>emit\<close> keeps a reference to the array it iterates while listeners call \<^verbatim>\<open>on\<close> and
  \<^verbatim>\<open>off\<close>, which mutate that array in place, so the arrays live in a store and the map
  holds their addresses. The store is a list, an address is an index into it, and a new
  array takes the next index. The map is an association list in insertion order, as a
  JavaScript \<^verbatim>\<open>Map\<close> is; \<open>None\<close> is \<^verbatim>\<open>null\<close>.
\<close>

type_synonym tuple = "jsval \<times> jsval"

record eventful =
  eventMap :: "(string \<times> nat) list option"
  arrays :: "tuple list list"

text \<open>A freshly constructed instance: \<^verbatim>\<open>#eventMap = null\<close>, and no array allocated.\<close>

definition new_eventful :: eventful where
  "new_eventful = \<lparr>eventMap = None, arrays = []\<rparr>"

text \<open>
  A method call returns the exception it threw, if any, and the instance as the call left
  it: JavaScript undoes nothing when an exception is thrown.
\<close>

type_synonym outcome = "error option \<times> eventful"

text \<open>
  \<^verbatim>\<open>on(eventName, callback, context)\<close>, lines 62-76. A \<^verbatim>\<open>Map\<close> and an array are
  truthy, so \<^verbatim>\<open>!eventMap\<close> tests for \<^verbatim>\<open>null\<close> and \<^verbatim>\<open>!callbacks\<close> for a missing key.
\<close>

definition on :: "string \<Rightarrow> jsval \<Rightarrow> jsval \<Rightarrow> eventful \<Rightarrow> outcome" where
  "on eventName callback context this =
     (if \<not> is_function callback
      then (Some (Error ''Expected a function in callback argument of Eventful#on.''), this)
      else
        let m = (case eventMap this of None \<Rightarrow> [] | Some m \<Rightarrow> m) in
        (case map_of m eventName of
           None \<Rightarrow>
             (None, \<lparr>eventMap = Some (m @ [(eventName, length (arrays this))]),
                     arrays = arrays this @ [[(callback, context)]]\<rparr>)
         | Some a \<Rightarrow>
             (None, \<lparr>eventMap = Some m,
                     arrays = (arrays this)[a := arrays this ! a @ [(callback, context)]]\<rparr>)))"

text \<open>
  \<^verbatim>\<open>Array.prototype.findIndex\<close>: the index of the first element that satisfies the
  predicate; \<open>None\<close> stands for \<^verbatim>\<open>-1\<close>.
\<close>

fun findIndex :: "('a \<Rightarrow> bool) \<Rightarrow> 'a list \<Rightarrow> nat option" where
  "findIndex p [] = None"
| "findIndex p (x # xs) =
     (if p x then Some 0 else (case findIndex p xs of None \<Rightarrow> None | Some i \<Rightarrow> Some (Suc i)))"

text \<open>\<^verbatim>\<open>xs.splice(index, 1)\<close>: the array without the element at \<open>index\<close>.\<close>

definition splice1 :: "nat \<Rightarrow> 'a list \<Rightarrow> 'a list" where
  "splice1 index xs = take index xs @ drop (Suc index) xs"

text \<open>\<^verbatim>\<open>off(eventName, callback, context)\<close>, lines 87-105.\<close>

definition off :: "string \<Rightarrow> jsval \<Rightarrow> jsval \<Rightarrow> eventful \<Rightarrow> outcome" where
  "off eventName callback context this =
     (case eventMap this of
        None \<Rightarrow> (None, this)
      | Some m \<Rightarrow>
          (case map_of m eventName of
             None \<Rightarrow> (None, this)
           | Some a \<Rightarrow>
               (case findIndex (\<lambda>tuple. fst tuple = callback \<and> snd tuple = context)
                       (arrays this ! a) of
                  None \<Rightarrow> (None, this)
                | Some index \<Rightarrow>
                    let callbacks = splice1 index (arrays this ! a);
                        m' = (if length callbacks = 0 then AList.delete eventName m else m)
                    in (None, \<lparr>eventMap = (if length m' = 0 then None else Some m'),
                               arrays = (arrays this)[a := callbacks]\<rparr>))))"

subsection \<open>Listeners\<close>

text \<open>
  A callback is a function reference \<open>Fn f\<close>; what its body does when it is called is
  given by a table of listeners. A body, called with a receiver and an argument, makes a
  sequence of calls to \<^verbatim>\<open>on\<close> and \<^verbatim>\<open>off\<close> of the emitting instance and may throw.
  (Listeners that emit again from inside a listener are outside the model.)
\<close>

datatype action =
    CallOn string jsval jsval
  | CallOff string jsval jsval
  | Throw jsval

type_synonym listeners = "nat \<Rightarrow> jsval \<Rightarrow> jsval \<Rightarrow> action list"

fun run_body :: "action list \<Rightarrow> eventful \<Rightarrow> outcome" where
  "run_body [] this = (None, this)"
| "run_body (CallOn eventName callback context # rest) this =
     (case on eventName callback context this of
        (Some e, this') \<Rightarrow> (Some e, this')
      | (None, this') \<Rightarrow> run_body rest this')"
| "run_body (CallOff eventName callback context # rest) this =
     (case off eventName callback context this of
        (Some e, this') \<Rightarrow> (Some e, this')
      | (None, this') \<Rightarrow> run_body rest this')"
| "run_body (Throw v # rest) this = (Some (Thrown v), this)"

text \<open>\<^verbatim>\<open>callback.call(context, data)\<close>\<close>

definition call :: "listeners \<Rightarrow> jsval \<Rightarrow> jsval \<Rightarrow> jsval \<Rightarrow> eventful \<Rightarrow> outcome" where
  "call L callback context data this =
     (case callback of
        Fn f \<Rightarrow> run_body (L f context data) this
      | _ \<Rightarrow> (Some (TypeError ''callback.call is not a function''), this))"

text \<open>An invocation that \<^verbatim>\<open>emit\<close> made: the callback, its receiver and its argument.\<close>

type_synonym invocation = "jsval \<times> jsval \<times> jsval"

subsection \<open>emit over the array, lines 122-141\<close>

text \<open>
  The loop \<^verbatim>\<open>for (let i = 0, len = callbacks.length; i < len; i += 1)\<close>: \<open>len\<close> is read
  once, \<^verbatim>\<open>callbacks[i]\<close> is read from the array as it is at that moment, and reading
  \<^verbatim>\<open>tuple[0]\<close> of the \<^verbatim>\<open>undefined\<close> found past the end of the array throws a TypeError.
  The result holds the invocations made, in order.
\<close>

function emit_loop ::
  "listeners \<Rightarrow> nat \<Rightarrow> jsval \<Rightarrow> nat \<Rightarrow> nat \<Rightarrow> eventful \<Rightarrow> outcome \<times> invocation list" where
  "emit_loop L a data i len this =
     (if i < len then
        (if i < length (arrays this ! a) then
           (let tuple = arrays this ! a ! i;
                callback = fst tuple;
                context = snd tuple
            in case call L callback context data this of
                 (Some e, this') \<Rightarrow> ((Some e, this'), [(callback, context, data)])
               | (None, this') \<Rightarrow>
                   (case emit_loop L a data (i + 1) len this' of
                      (r, log) \<Rightarrow> (r, (callback, context, data) # log)))
         else ((Some (TypeError ''Cannot read properties of undefined''), this), []))
      else ((None, this), []))"
  by pat_completeness auto
termination
  by (relation "measure (\<lambda>(L, a, data, i, len, this). len - i)") auto

declare emit_loop.simps [simp del]

definition emit :: "listeners \<Rightarrow> string \<Rightarrow> jsval \<Rightarrow> eventful \<Rightarrow> outcome \<times> invocation list" where
  "emit L eventName data this =
     (case eventMap this of
        None \<Rightarrow> ((None, this), [])
      | Some m \<Rightarrow>
          (case map_of m eventName of
             None \<Rightarrow> ((None, this), [])
           | Some a \<Rightarrow> emit_loop L a data 0 (length (arrays this ! a)) this))"

subsection \<open>emit over a copy of the Set, lines 696-706\<close>

text \<open>
  The later revision in the same file keeps the tuples of an event name in a
  \<^verbatim>\<open>Set<[Function, any]>\<close> and iterates a copy of it:
  \<^verbatim>\<open>for (const [callback, context] of new Set(callbacks)) callback.call(context, data)\<close>.
  A Set iterates in insertion order and every \<^verbatim>\<open>on\<close> adds a tuple array of its own, so
  the Set holds what the array holds, in the same order; \<open>emit_Set\<close> reads it from the
  same store. The copy is the list as it is when \<^verbatim>\<open>emit\<close> starts.
\<close>

fun dispatch_Set ::
  "listeners \<Rightarrow> tuple list \<Rightarrow> jsval \<Rightarrow> eventful \<Rightarrow> outcome \<times> invocation list" where
  "dispatch_Set L [] data this = ((None, this), [])"
| "dispatch_Set L (tuple # rest) data this =
     (let callback = fst tuple;
          context = snd tuple
      in case call L callback context data this of
           (Some e, this') \<Rightarrow> ((Some e, this'), [(callback, context, data)])
         | (None, this') \<Rightarrow>
             (case dispatch_Set L rest data this' of
                (r, log) \<Rightarrow> (r, (callback, context, data) # log)))"

definition emit_Set ::
  "listeners \<Rightarrow> string \<Rightarrow> jsval \<Rightarrow> eventful \<Rightarrow> outcome \<times> invocation list" where
  "emit_Set L eventName data this =
     (case eventMap this of
        None \<Rightarrow> ((None, this), [])
      | Some m \<Rightarrow>
          (case map_of m eventName of
             None \<Rightarrow> ((None, this), [])
           | Some a \<Rightarrow> dispatch_Set L (arrays this ! a) data this))"

subsection \<open>Sequences of calls\<close>

datatype operation =
    On string jsval jsval
  | Off string jsval jsval
  | Emit string jsval

text \<open>The instance after one call, whether the call returned or threw.\<close>

fun perform :: "listeners \<Rightarrow> operation \<Rightarrow> eventful \<Rightarrow> eventful" where
  "perform L (On eventName callback context) this = snd (on eventName callback context this)"
| "perform L (Off eventName callback context) this = snd (off eventName callback context this)"
| "perform L (Emit eventName data) this = snd (fst (emit L eventName data this))"

definition run :: "listeners \<Rightarrow> operation list \<Rightarrow> eventful \<Rightarrow> eventful" where
  "run L ops this = fold (perform L) ops this"

text \<open>
  \<open>subscribe_all\<close> calls \<^verbatim>\<open>on(eventName, cb, ctx)\<close> for each pair of a list in turn and
  stops at the first call that throws.
\<close>

fun subscribe_all :: "string \<Rightarrow> tuple list \<Rightarrow> eventful \<Rightarrow> outcome" where
  "subscribe_all eventName [] this = (None, this)"
| "subscribe_all eventName (tuple # rest) this =
     (case on eventName (fst tuple) (snd tuple) this of
        (Some e, this') \<Rightarrow> (Some e, this')
      | (None, this') \<Rightarrow> subscribe_all eventName rest this')"

subsection \<open>What the registry holds\<close>

text \<open>The event names that are keys of the map, and the entries subscribed to a name.\<close>

definition eventNames :: "eventful \<Rightarrow> string list" where
  "eventNames this = (case eventMap this of None \<Rightarrow> [] | Some m \<Rightarrow> map fst m)"

definition callbacks_of :: "eventful \<Rightarrow> string \<Rightarrow> tuple list" where
  "callbacks_of this eventName =
     (case eventMap this of
        None \<Rightarrow> []
      | Some m \<Rightarrow> (case map_of m eventName of None \<Rightarrow> [] | Some a \<Rightarrow> arrays this ! a))"

text \<open>
  The shape of every instance the methods produce: a map that is not \<^verbatim>\<open>null\<close> has a
  key, no key twice, each key its own array, and no array of a key is empty.
\<close>

definition registry_ok :: "eventful \<Rightarrow> bool" where
  "registry_ok this =
     (case eventMap this of
        None \<Rightarrow> True
      | Some m \<Rightarrow>
          m \<noteq> [] \<and> distinct (map fst m) \<and> distinct (map snd m) \<and>
          list_all (\<lambda>(k, a). a < length (arrays this) \<and> arrays this ! a \<noteq> []) m)"

definition callbacks_are_functions :: "eventful \<Rightarrow> bool" where
  "callbacks_are_functions this =
     list_all (list_all (\<lambda>tuple. is_function (fst tuple))) (arrays this)"

definition invocation_of :: "jsval \<Rightarrow> tuple \<Rightarrow> invocation" where
  "invocation_of data tuple = (fst tuple, snd tuple, data)"

text \<open>The address of the array of an event name, if the map has the name.\<close>

definition address_of :: "eventful \<Rightarrow> string \<Rightarrow> nat option" where
  "address_of this eventName =
     (case eventMap this of None \<Rightarrow> None | Some m \<Rightarrow> map_of m eventName)"

text \<open>
  What the body of a listener throws, if it throws: \<^verbatim>\<open>on\<close> throws for a callback that is
  not a function, \<^verbatim>\<open>off\<close> never throws.
\<close>

fun body_error :: "action list \<Rightarrow> error option" where
  "body_error [] = None"
| "body_error (CallOn eventName callback context # rest) =
     (if is_function callback then body_error rest
      else Some (Error ''Expected a function in callback argument of Eventful#on.''))"
| "body_error (CallOff eventName callback context # rest) = body_error rest"
| "body_error (Throw v # rest) = Some (Thrown v)"

text \<open>A body keeps the entries of an event name when it never calls \<^verbatim>\<open>off\<close> for that name.\<close>

fun keeps :: "string \<Rightarrow> action list \<Rightarrow> bool" where
  "keeps name [] = True"
| "keeps name (CallOff eventName callback context # rest) = (eventName \<noteq> name \<and> keeps name rest)"
| "keeps name (CallOn eventName callback context # rest) = keeps name rest"
| "keeps name (Throw v # rest) = keeps name rest"

text \<open>
  An entry is steady for an event name and an argument when its callback is a function
  whose body, called with the entry's context and that argument, keeps the entries of the
  name. \<open>raised\<close> is what the listener of an entry throws, and an entry whose listener
  throws nothing returns.
\<close>

definition steady :: "listeners \<Rightarrow> string \<Rightarrow> jsval \<Rightarrow> tuple \<Rightarrow> bool" where
  "steady L name data tuple =
     (case fst tuple of Fn f \<Rightarrow> keeps name (L f (snd tuple) data) | _ \<Rightarrow> False)"

definition raised :: "listeners \<Rightarrow> jsval \<Rightarrow> tuple \<Rightarrow> error option" where
  "raised L data tuple =
     (case fst tuple of
        Fn f \<Rightarrow> body_error (L f (snd tuple) data)
      | _ \<Rightarrow> Some (TypeError ''callback.call is not a function''))"

definition returns :: "listeners \<Rightarrow> jsval \<Rightarrow> tuple \<Rightarrow> bool" where
  "returns L data tuple = (raised L data tuple = None)"

text \<open>
  Of a list of entries, in order: the invocations up to and with the first entry whose
  listener throws, and what that listener throws.
\<close>

definition pass_invocations :: "listeners \<Rightarrow> jsval \<Rightarrow> tuple list \<Rightarrow> invocation list" where
  "pass_invocations L data entries =
     map (invocation_of data) (take (Suc (length (takeWhile (returns L data) entries))) entries)"

definition pass_error :: "listeners \<Rightarrow> jsval \<Rightarrow> tuple list \<Rightarrow> error option" where
  "pass_error L data entries =
     (case dropWhile (returns L data) entries of
        [] \<Rightarrow> None
      | tuple # rest \<Rightarrow> raised L data tuple)"

text \<open>Example listeners. With \<open>quiet\<close>, every function has an empty body.\<close>

definition quiet :: listeners where
  "quiet f ctx data = []"

text \<open>
  With \<open>throws\<close>, the body of function 1 is \<^verbatim>\<open>throw 'boom'\<close>, and every other function
  has an empty body.
\<close>

definition throws :: listeners where
  "throws f ctx data = (if f = 1 then [Throw (Str ''boom'')] else [])"

text \<open>
  With \<open>subscribes_more\<close>, the body of function 1 is \<^verbatim>\<open>o.on('x', f3); o.off('y', f1)\<close>,
  where \<^verbatim>\<open>o\<close> is the emitting instance, and every other function has an empty body.
\<close>

definition subscribes_more :: listeners where
  "subscribes_more f ctx data =
     (if f = 1 then [CallOn ''x'' (Fn 3) Undefined, CallOff ''y'' (Fn 1) Undefined] else [])"

text \<open>
  With \<open>unsubscribes_itself\<close>, the body of function 1 is \<^verbatim>\<open>o.off('x', f1)\<close>, where
  \<^verbatim>\<open>f1\<close> is the function itself; every other function has an empty body.
\<close>

definition unsubscribes_itself :: listeners where
  "unsubscribes_itself f ctx data = (if f = 1 then [CallOff ''x'' (Fn 1) Undefined] else [])"

text \<open>What steady listeners keep of the instance during a pass over the entries of an event
  name: the shape of the map, the array of the name, and the entries at their indices.\<close>

definition pass_state :: "string \<Rightarrow> nat \<Rightarrow> tuple list \<Rightarrow> eventful \<Rightarrow> bool" where
  "pass_state name a entries this =
     (registry_ok this \<and> address_of this name = Some a \<and>
      take (length entries) (callbacks_of this name) = entries)"

text \<open>The two facts that every instance keeps through every call.\<close>

definition sound :: "eventful \<Rightarrow> bool" where
  "sound this = (registry_ok this \<and> callbacks_are_functions this)"

section \<open>The instance test of src/Eventful.ts, lines 144-159\<close>

text \<open>
  An object is its own properties followed by the properties of each object of its
  prototype chain; a property is keyed by a string or by a symbol. A read looks through
  the chain in that order and gives \<^verbatim>\<open>undefined\<close> when no object of the chain has the key.
  The built-in prototypes of the primitives have no property under the module's symbol.
\<close>

datatype key =
    StringKey string
  | SymbolKey nat

type_synonym properties = "(key \<times> jsval) list"

datatype target =
    Primitive jsval
  | Object "properties list"

text \<open>\<^verbatim>\<open>const isEventful = Symbol('isEventful')\<close>: a symbol of the module's own.\<close>

definition isEventful :: nat where
  "isEventful = 0"

fun lookup_chain :: "properties list \<Rightarrow> key \<Rightarrow> jsval" where
  "lookup_chain [] k = Undefined"
| "lookup_chain (own # protos) k =
     (case map_of own k of Some v \<Rightarrow> v | None \<Rightarrow> lookup_chain protos k)"

fun get_property :: "target \<Rightarrow> key \<Rightarrow> jsval" where
  "get_property (Primitive v) k = Undefined"
| "get_property (Object chain) k = lookup_chain chain k"

fun truthy_target :: "target \<Rightarrow> bool" where
  "truthy_target (Primitive v) = truthy v"
| "truthy_target (Object chain) = True"

text \<open>
  \<^verbatim>\<open>Eventful[Symbol.hasInstance]\<close>, which \<^verbatim>\<open>obj instanceof Eventful\<close> calls:
  \<^verbatim>\<open>if (!obj) return false; if (obj[isEventful]) return true; return false\<close>.
\<close>

definition hasInstance :: "target \<Rightarrow> bool" where
  "hasInstance obj =
     (if \<not> truthy_target obj then False
      else if truthy (get_property obj (SymbolKey isEventful)) then True
      else False)"

text \<open>
  A class is the chain that starts at its prototype object, and the own properties that
  its constructor leaves on a new object.
\<close>

record jsclass =
  prototype :: "properties list"
  own_fields :: properties

text \<open>
  \<^verbatim>\<open>Eventful(Base)\<close>, lines 45-149: the class has the field
  \<^verbatim>\<open>[isEventful] = isEventful\<close>, set on the new object once the constructor of
  \<open>Base\<close> has returned, the methods \<^verbatim>\<open>on\<close>, \<^verbatim>\<open>off\<close> and \<^verbatim>\<open>emit\<close>, and line 146 sets
  \<^verbatim>\<open>Eventful.prototype[isEventful] = isEventful\<close>.
\<close>

definition Eventful :: "jsclass \<Rightarrow> jsclass" where
  "Eventful Base =
     \<lparr>prototype =
        [(StringKey ''on'', Fn 0), (StringKey ''off'', Fn 1), (StringKey ''emit'', Fn 2),
         (SymbolKey isEventful, Sym isEventful)] # prototype Base,
      own_fields = AList.update (SymbolKey isEventful) (Sym isEventful) (own_fields Base)\<rparr>"

text \<open>
  \<^verbatim>\<open>class Sub extends Super\<close> with methods of its own and fields of its own, which
  its constructor sets after the constructor of \<open>Super\<close> has returned.
\<close>

definition extend_class :: "jsclass \<Rightarrow> properties \<times> properties \<Rightarrow> jsclass" where
  "extend_class Super body =
     \<lparr>prototype = fst body # prototype Super,
      own_fields = fold (\<lambda>(k, v). AList.update k v) (snd body) (own_fields Super)\<rparr>"

definition derived :: "jsclass \<Rightarrow> (properties \<times> properties) list \<Rightarrow> jsclass" where
  "derived C bodies = fold (\<lambda>body Super. extend_class Super body) bodies C"

text \<open>\<^verbatim>\<open>new C()\<close>\<close>

definition construct :: "jsclass \<Rightarrow> target" where
  "construct C = Object (own_fields C # prototype C)"

text \<open>A class body declares nothing under the module's symbol.\<close>

definition plain_body :: "properties \<times> properties \<Rightarrow> bool" where
  "plain_body body =
     (map_of (fst body) (SymbolKey isEventful) = None \<and>
      map_of (snd body) (SymbolKey isEventful) = None)"

definition plain_layer :: "properties \<Rightarrow> bool" where
  "plain_layer layer = (map_of layer (SymbolKey isEventful) = None)"

text \<open>A built-in base class with a prototype chain and an own property, as \<^verbatim>\<open>Array\<close> has.\<close>

definition Array_class :: jsclass where
  "Array_class =
     \<lparr>prototype = [[(StringKey ''push'', Fn 10), (StringKey ''pop'', Fn 11)],
                   [(StringKey ''toString'', Fn 12)]],
      own_fields = [(StringKey ''length'', Num 0)]\<rparr>"

section \<open>The decorator of src/emits.ts\<close>

text \<open>
  The descriptor that \<^verbatim>\<open>_emits\<close> is given or finds on the prototype: a data property
  with its value and its \<^verbatim>\<open>writable\<close> flag (false when absent), or an accessor with the
  getter and setter it has. The original accessors work on a state \<open>'u\<close> of the object
  they are called on: a getter gives a value or throws, a setter returns or throws, and
  each leaves a state.
\<close>

type_synonym 'u getter = "'u \<Rightarrow> (error + jsval) \<times> 'u"

type_synonym 'u setter = "jsval \<Rightarrow> 'u \<Rightarrow> error option \<times> 'u"

datatype 'u descriptor =
    DataDescriptor jsval bool
  | AccessorDescriptor "'u getter option" "'u setter option"

text \<open>
  The accessor pair that \<^verbatim>\<open>_emits\<close> builds, lines 87-125: over the hidden slot
  \<^verbatim>\<open>this[vName]\<close> with the initial value, or over the original setter and the original
  getter, if there is one.
\<close>

datatype 'u reactive =
    Field jsval
  | Accessor "'u getter option" "'u setter"

datatype 'u decorated =
    Unchanged
  | Replaced "'u reactive"

text \<open>
  \<^verbatim>\<open>_emits(prototype, propName, descriptor, eventName)\<close>, lines 24-135: a TypeError
  unless \<^verbatim>\<open>prototype instanceof Eventful\<close>; a warning and no change for an accessor with
  no setter and for a property that is not writable; the new accessor pair otherwise.
  \<open>None\<close> is the property with no descriptor.
\<close>

definition emits :: "target \<Rightarrow> 'u descriptor option \<Rightarrow> error + 'u decorated" where
  "emits proto descriptor =
     (if \<not> hasInstance proto
      then Inl (TypeError
        ''The @emits decorator is only for use on properties of classes that extend from Eventful.'')
      else
        (case descriptor of
           None \<Rightarrow> Inr (Replaced (Field Undefined))
         | Some (AccessorDescriptor originalGet None) \<Rightarrow> Inr Unchanged
         | Some (AccessorDescriptor originalGet (Some originalSet)) \<Rightarrow>
             Inr (Replaced (Accessor originalGet originalSet))
         | Some (DataDescriptor initialValue writable) \<Rightarrow>
             (if \<not> writable then Inr Unchanged else Inr (Replaced (Field initialValue)))))"

text \<open>
  The microtask \<^verbatim>\<open>emitEvent.bind(this)\<close> that a write hands to
  \<^verbatim>\<open>Promise.resolve().then\<close>: the object, the event name and the property name.
\<close>

datatype microtask = EmitEvent nat string string

text \<open>
  What one call of \<^verbatim>\<open>_emits\<close> and the objects of the class hold: the variable
  \<^verbatim>\<open>initialValueIsSet\<close> that the accessors close over, the own property \<^verbatim>\<open>vName\<close> of
  each object that has it, the prototype chain of each object (nearest first), the state of
  each object that the original accessors use, and the queue of microtasks. Objects are
  told apart by a number.
\<close>

record 'u world =
  initialValueIsSet :: bool
  slot :: "nat \<Rightarrow> jsval option"
  protos :: "nat \<Rightarrow> nat list"
  self :: "nat \<Rightarrow> 'u"
  microtasks :: "microtask list"

definition new_world :: "(nat \<Rightarrow> nat list) \<Rightarrow> (nat \<Rightarrow> 'u) \<Rightarrow> 'u world" where
  "new_world c u =
     \<lparr>initialValueIsSet = False, slot = (\<lambda>this. None), protos = c, self = u, microtasks = []\<rparr>"

text \<open>
  The read \<^verbatim>\<open>this[vName]\<close>: the property of the first object that has it, of the object
  and then its prototype chain, and \<^verbatim>\<open>undefined\<close> when none has it.
\<close>

fun read_slot :: "(nat \<Rightarrow> jsval option) \<Rightarrow> nat list \<Rightarrow> jsval" where
  "read_slot s [] = Undefined"
| "read_slot s (x # xs) = (case s x of Some v \<Rightarrow> v | None \<Rightarrow> read_slot s xs)"

text \<open>
  The getters, lines 90-107. The assignment \<^verbatim>\<open>this[vName] = initialValue\<close> makes an own
  property of \<^verbatim>\<open>this\<close>. A property with no getter reads as \<^verbatim>\<open>undefined\<close>.
\<close>

fun prop_get :: "'u reactive \<Rightarrow> nat \<Rightarrow> 'u world \<Rightarrow> (error + jsval) \<times> 'u world" where
  "prop_get (Field initialValue) this w =
     (if \<not> initialValueIsSet w
      then (Inr initialValue,
            w\<lparr>initialValueIsSet := True, slot := (slot w)(this \<mapsto> initialValue)\<rparr>)
      else (Inr (read_slot (slot w) (this # protos w this)), w))"
| "prop_get (Accessor originalGet originalSet) this w =
     (case originalGet of
        None \<Rightarrow> (Inr Undefined, w)
      | Some g \<Rightarrow>
          (case g (self w this) of (r, u) \<Rightarrow> (r, w\<lparr>self := (self w)(this := u)\<rparr>)))"

text \<open>
  The setters, lines 108-124. When the original setter throws, the line that schedules
  the microtask is not reached and the write throws what the setter threw.
\<close>

fun prop_set ::
  "'u reactive \<Rightarrow> string \<Rightarrow> string \<Rightarrow> nat \<Rightarrow> jsval \<Rightarrow> 'u world \<Rightarrow> error option \<times> 'u world" where
  "prop_set (Field initialValue) eventName propName this newValue w =
     (None,
      w\<lparr>initialValueIsSet := True,
        slot := (slot w)(this \<mapsto> newValue),
        microtasks := microtasks w @ [EmitEvent this eventName propName]\<rparr>)"
| "prop_set (Accessor originalGet originalSet) eventName propName this newValue w =
     (case originalSet newValue (self w this) of
        (Some e, u) \<Rightarrow> (Some e, w\<lparr>self := (self w)(this := u)\<rparr>)
      | (None, u) \<Rightarrow>
          (None,
           w\<lparr>self := (self w)(this := u),
             microtasks := microtasks w @ [EmitEvent this eventName propName]\<rparr>))"







text \<open>The same state for every object.\<close>

definition every :: "'u \<Rightarrow> nat \<Rightarrow> 'u" where
  "every u this = u"

text \<open>Objects 1 and 2 are instances of a class whose prototype is object 0.\<close>

definition instances_of_0 :: "nat \<Rightarrow> nat list" where
  "instances_of_0 this = (if this = 0 then [] else [0])"

section \<open>Properties\<close>

subsection \<open>Arrays\<close>

lemma findIndex_None_iff: "findIndex p xs = None \<longleftrightarrow> \<not> list_ex p xs"
  by (induction xs) (auto split: option.splits)

lemma findIndex_Some_bound: "findIndex p xs = Some i \<Longrightarrow> i < length xs"
  by (induction xs arbitrary: i) (auto split: option.splits if_splits)

lemma splice1_findIndex:
  "findIndex (\<lambda>t. fst t = cb \<and> snd t = ctx) xs = Some i \<Longrightarrow> splice1 i xs = remove1 (cb, ctx) xs"
proof (induction xs arbitrary: i)
  case Nil
  then show ?case by simp
next
  case (Cons x xs)
  show ?case
  proof (cases "fst x = cb \<and> snd x = ctx")
    case True
    with Cons.prems show ?thesis by (cases x) (auto simp: splice1_def)
  next
    case False
    with Cons.prems obtain j where j: "findIndex (\<lambda>t. fst t = cb \<and> snd t = ctx) xs = Some j" "i = Suc j"
      by (auto split: option.splits)
    from Cons.IH[OF j(1)] False j(2) show ?thesis
      by (cases x) (auto simp: splice1_def)
  qed
qed

lemma findIndex_None_remove1:
  "findIndex (\<lambda>t. fst t = cb \<and> snd t = ctx) xs = None \<Longrightarrow> (cb, ctx) \<notin> set xs"
  by (induction xs) (auto split: option.splits if_splits)

lemma findIndex_tuple_None_iff:
  "findIndex (\<lambda>t. fst t = cb \<and> snd t = ctx) xs = None \<longleftrightarrow> (cb, ctx) \<notin> set xs"
  by (induction xs) (auto split: option.splits if_splits)

lemma map_of_addr:
  "map_of m k = Some a \<Longrightarrow> (k, a) \<in> set m"
  by (rule map_of_SomeD)

lemma registry_ok_addr:
  assumes "registry_ok this" "eventMap this = Some m" "map_of m k = Some a"
  shows "a < length (arrays this)" "arrays this ! a \<noteq> []"
  using assms map_of_SomeD[OF assms(3)]
  by (auto simp: registry_ok_def list_all_iff)

lemma map_of_other_addr:
  assumes "distinct (map snd m)" "map_of m k = Some a" "map_of m k' = Some a'" "k \<noteq> k'"
  shows "a \<noteq> a'"
proof
  assume "a = a'"
  with assms have "(k, a) \<in> set m" "(k', a) \<in> set m" by (auto dest: map_of_SomeD)
  with assms(1,4) show False
    by (metis distinct_map eq_key_imp_eq_value inj_on_def snd_conv prod.inject)
qed

lemma off_unchanged:
  assumes "(callback, context) \<notin> set (callbacks_of this eventName)"
  shows "off eventName callback context this = (None, this)"
proof (cases "eventMap this")
  case None
  then show ?thesis by (simp add: off_def)
next
  case (Some m)
  show ?thesis
  proof (cases "map_of m eventName")
    case None
    with Some show ?thesis by (simp add: off_def)
  next
    case a: (Some a)
    from assms Some a have "(callback, context) \<notin> set (arrays this ! a)"
      by (simp add: callbacks_of_def)
    then have "findIndex (\<lambda>tuple. fst tuple = callback \<and> snd tuple = context) (arrays this ! a) = None"
      by (simp add: findIndex_tuple_None_iff)
    with Some a show ?thesis by (simp add: off_def)
  qed
qed

lemma off_no_error: "fst (off eventName callback context this) = None"
  by (auto simp: off_def Let_def split: option.splits)

lemma on_no_error: "is_function callback \<Longrightarrow> fst (on eventName callback context this) = None"
  by (auto simp: on_def Let_def split: option.splits)

lemma on_callbacks_of:
  assumes "registry_ok this" "is_function callback"
  shows "callbacks_of (snd (on eventName callback context this)) name =
           (if name = eventName then callbacks_of this eventName @ [(callback, context)]
            else callbacks_of this name)"
proof (cases "eventMap this")
  case None
  then show ?thesis using assms by (auto simp: on_def callbacks_of_def)
next
  case (Some m)
  show ?thesis
  proof (cases "map_of m eventName")
    case None
    have "\<And>a. map_of m name = Some a \<Longrightarrow> a < length (arrays this)"
      using registry_ok_addr[OF assms(1) Some] by blast
    then show ?thesis using assms Some None
      by (auto simp: on_def callbacks_of_def nth_append map_of_append split: option.splits)
  next
    case (Some a)
    note a = this
    have d: "distinct (map snd m)" using assms(1) \<open>eventMap this = Some m\<close> by (simp add: registry_ok_def)
    have lt: "a < length (arrays this)" using registry_ok_addr[OF assms(1) \<open>eventMap this = Some m\<close> a] by simp
    show ?thesis
    proof (cases "name = eventName")
      case True
      then show ?thesis using assms \<open>eventMap this = Some m\<close> a lt
        by (simp add: on_def callbacks_of_def)
    next
      case False
      then show ?thesis using assms \<open>eventMap this = Some m\<close> a lt map_of_other_addr[OF d a]
        by (auto simp: on_def callbacks_of_def split: option.splits)
    qed
  qed
qed


lemma on_registry_ok:
  assumes "registry_ok this"
  shows "registry_ok (snd (on eventName callback context this))"
proof (cases "is_function callback")
  case False
  then show ?thesis using assms by (simp add: on_def)
next
  case fn: True
  show ?thesis
  proof (cases "eventMap this")
    case None
    then show ?thesis using fn by (simp add: on_def registry_ok_def)
  next
    case (Some m)
    from assms Some have ok: "m \<noteq> []" "distinct (map fst m)" "distinct (map snd m)"
      "\<And>k a. (k, a) \<in> set m \<Longrightarrow> a < length (arrays this) \<and> arrays this ! a \<noteq> []"
      by (auto simp: registry_ok_def list_all_iff)
    show ?thesis
    proof (cases "map_of m eventName")
      case None
      then have "eventName \<notin> fst ` set m" by (simp add: map_of_eq_None_iff)
      moreover have "length (arrays this) \<notin> snd ` set m" using ok(4) by force
      ultimately show ?thesis using fn Some None ok
        by (auto simp: on_def registry_ok_def list_all_iff nth_append)
    next
      case a: (Some a)
      then show ?thesis using fn Some ok
        by (auto simp: on_def registry_ok_def list_all_iff nth_list_update)
    qed
  qed
qed

lemma off_registry_ok:
  assumes "registry_ok this"
  shows "registry_ok (snd (off eventName callback context this))"
proof (cases "eventMap this")
  case None
  then show ?thesis using assms by (simp add: off_def)
next
  case (Some m)
  from assms Some have ok: "m \<noteq> []" "distinct (map fst m)" "distinct (map snd m)"
    "\<And>k a. (k, a) \<in> set m \<Longrightarrow> a < length (arrays this) \<and> arrays this ! a \<noteq> []"
    by (auto simp: registry_ok_def list_all_iff)
  show ?thesis
  proof (cases "map_of m eventName")
    case None
    then show ?thesis using assms Some by (simp add: off_def)
  next
    case a: (Some a)
    let ?xs = "arrays this ! a"
    show ?thesis
    proof (cases "findIndex (\<lambda>tuple. fst tuple = callback \<and> snd tuple = context) ?xs")
      case None
      then show ?thesis using assms Some a by (simp add: off_def)
    next
      case i: (Some i)
      have mem: "(eventName, a) \<in> set m" using a by (rule map_of_SomeD)
      have other: "\<And>k a'. (k, a') \<in> set m \<Longrightarrow> k \<noteq> eventName \<Longrightarrow> a' \<noteq> a"
        using ok(3) mem by (metis distinct_map inj_onD snd_conv fst_conv)
      have same: "\<And>k. (k, a) \<in> set m \<Longrightarrow> k = eventName"
        using other by blast
      have d1: "distinct (map fst (AList.delete eventName m))"
        using ok(2) by (rule distinct_delete)
      have d2: "distinct (map snd (AList.delete eventName m))"
        using ok(3) by (simp add: AList.delete_eq distinct_map_filter)
      have s: "set (AList.delete eventName m) = {p \<in> set m. fst p \<noteq> eventName}"
        by (auto simp: AList.delete_eq)
      have res: "snd (off eventName callback context this) =
          \<lparr>eventMap = (if (if splice1 i ?xs = [] then AList.delete eventName m else m) = [] then None
                        else Some (if splice1 i ?xs = [] then AList.delete eventName m else m)),
           arrays = (arrays this)[a := splice1 i ?xs]\<rparr>"
        using Some a i by (simp add: off_def Let_def)
      show ?thesis
      proof (cases "splice1 i ?xs = []")
        case True
        have "list_all (\<lambda>(k, a'). a' < length ((arrays this)[a := []]) \<and> (arrays this)[a := []] ! a' \<noteq> [])
                (AList.delete eventName m)"
          unfolding list_all_iff s
        proof (clarsimp)
          fix k a' assume m: "(k, a') \<in> set m" and k: "k \<noteq> eventName"
          from other[OF m k] have "(arrays this)[a := []] ! a' = arrays this ! a'" by simp
          with ok(4)[OF m] show "a' < length (arrays this) \<and> (arrays this)[a := []] ! a' \<noteq> []"
            by simp
        qed
        then show ?thesis using True d1 d2
          by (simp add: res registry_ok_def)
      next
        case False
        have "list_all (\<lambda>(k, a'). a' < length ((arrays this)[a := splice1 i ?xs]) \<and>
                  (arrays this)[a := splice1 i ?xs] ! a' \<noteq> []) m"
          unfolding list_all_iff
        proof (clarsimp)
          fix k a' assume m: "(k, a') \<in> set m"
          show "a' < length (arrays this) \<and> (arrays this)[a := splice1 i (arrays this ! a)] ! a' \<noteq> []"
            using ok(4)[OF m] False by (cases "a' = a") simp_all
        qed
        then show ?thesis using False ok(1,2,3)
          by (simp add: res registry_ok_def)
      qed
    qed
  qed
qed

lemma off_callbacks_of:
  assumes "registry_ok this"
  shows "callbacks_of (snd (off eventName callback context this)) name =
           (if name = eventName then remove1 (callback, context) (callbacks_of this eventName)
            else callbacks_of this name)"
proof (cases "(callback, context) \<in> set (callbacks_of this eventName)")
  case False
  then show ?thesis by (simp add: off_unchanged remove1_idem)
next
  case True
  then obtain m where m: "eventMap this = Some m"
    by (cases "eventMap this") (auto simp: callbacks_of_def)
  with True obtain a where a: "map_of m eventName = Some a"
    by (cases "map_of m eventName") (auto simp: callbacks_of_def)
  let ?xs = "arrays this ! a"
  from True m a have "(callback, context) \<in> set ?xs" by (simp add: callbacks_of_def)
  then obtain i where i: "findIndex (\<lambda>tuple. fst tuple = callback \<and> snd tuple = context) ?xs = Some i"
    using findIndex_tuple_None_iff[of callback "context" "arrays this ! a"] by auto
  have sp: "splice1 i ?xs = remove1 (callback, context) ?xs"
    using i by (rule splice1_findIndex)
  from assms m have ok: "distinct (map fst m)" "distinct (map snd m)"
    "\<And>k a. (k, a) \<in> set m \<Longrightarrow> a < length (arrays this)"
    by (auto simp: registry_ok_def list_all_iff)
  have lt: "a < length (arrays this)" using ok(3) map_of_SomeD[OF a] by blast
  have other: "\<And>a'. name \<noteq> eventName \<Longrightarrow> map_of m name = Some a' \<Longrightarrow> a' \<noteq> a"
    using map_of_other_addr[OF ok(2) _ a] by blast
  have dn: "AList.delete eventName m = [] \<Longrightarrow> name \<noteq> eventName \<Longrightarrow> map_of m name = None"
    using map_of_delete[of name eventName m] by simp
  show ?thesis
  proof (cases "name = eventName")
    case True
    then show ?thesis using m a i sp lt
      by (auto simp: off_def callbacks_of_def Let_def delete_conv)
  next
    case False
    then show ?thesis using m a i sp lt other dn
      by (auto simp: off_def callbacks_of_def Let_def delete_conv split: option.splits)
  qed
qed

subsection \<open>What every call keeps\<close>

lemma set_splice1: "set (splice1 i xs) \<subseteq> set xs"
  by (auto simp: splice1_def dest: in_set_takeD in_set_dropD)

lemma list_all_update: "list_all P xs \<Longrightarrow> P y \<Longrightarrow> list_all P (xs[a := y])"
  using set_update_subset_insert[of xs a y] by (auto simp: list_all_iff)

lemma on_callbacks_are_functions:
  assumes "callbacks_are_functions this"
  shows "callbacks_are_functions (snd (on eventName callback context this))"
proof (cases "is_function callback")
  case False
  then show ?thesis using assms by (simp add: on_def)
next
  case fn: True
  let ?m = "case eventMap this of None \<Rightarrow> [] | Some m \<Rightarrow> m"
  show ?thesis
  proof (cases "map_of ?m eventName")
    case None
    then show ?thesis using fn assms by (simp add: on_def callbacks_are_functions_def)
  next
    case (Some a)
    have "list_all (list_all (\<lambda>tuple. is_function (fst tuple)))
            ((arrays this)[a := arrays this ! a @ [(callback, context)]])"
    proof (cases "a < length (arrays this)")
      case True
      then have "list_all (\<lambda>tuple. is_function (fst tuple)) (arrays this ! a)"
        using assms by (simp add: callbacks_are_functions_def list_all_length)
      then show ?thesis using assms fn
        by (intro list_all_update) (simp_all add: callbacks_are_functions_def)
    next
      case False
      then show ?thesis using assms by (simp add: callbacks_are_functions_def list_update_beyond)
    qed
    then show ?thesis using fn Some by (simp add: on_def callbacks_are_functions_def)
  qed
qed

lemma off_callbacks_are_functions:
  assumes "callbacks_are_functions this"
  shows "callbacks_are_functions (snd (off eventName callback context this))"
proof -
  have upd: "list_all (list_all (\<lambda>tuple. is_function (fst tuple)))
            ((arrays this)[a := splice1 i (arrays this ! a)])" for a i
  proof (cases "a < length (arrays this)")
    case True
    then have "list_all (\<lambda>tuple. is_function (fst tuple)) (arrays this ! a)"
      using assms by (simp add: callbacks_are_functions_def list_all_length)
    then have "list_all (\<lambda>tuple. is_function (fst tuple)) (splice1 i (arrays this ! a))"
      using set_splice1[of i "arrays this ! a"] by (auto simp: list_all_iff)
    then show ?thesis using assms
      by (intro list_all_update) (simp_all add: callbacks_are_functions_def)
  next
    case False
    then show ?thesis using assms by (simp add: callbacks_are_functions_def list_update_beyond)
  qed
  show ?thesis using assms upd
    by (auto simp: off_def Let_def callbacks_are_functions_def split: option.splits)
qed

lemma sound_new: "sound new_eventful"
  by (simp add: sound_def registry_ok_def callbacks_are_functions_def new_eventful_def)

lemma sound_on: "sound this \<Longrightarrow> sound (snd (on eventName callback context this))"
  by (simp add: sound_def on_registry_ok on_callbacks_are_functions)

lemma sound_off: "sound this \<Longrightarrow> sound (snd (off eventName callback context this))"
  by (simp add: sound_def off_registry_ok off_callbacks_are_functions)

lemma sound_run_body: "sound this \<Longrightarrow> sound (snd (run_body body this))"
proof (induction body this rule: run_body.induct)
  case (1 this)
  then show ?case by simp
next
  case (2 eventName callback "context" rest this)
  then show ?case using sound_on[of this eventName callback "context"]
    by (auto split: prod.splits option.splits)
next
  case (3 eventName callback "context" rest this)
  then show ?case using sound_off[of this eventName callback "context"]
    by (auto split: prod.splits option.splits)
next
  case (4 v rest this)
  then show ?case by simp
qed

lemma sound_call: "sound this \<Longrightarrow> sound (snd (call L callback context data this))"
  by (cases callback) (simp_all add: call_def sound_run_body)

lemma sound_emit_loop: "sound this \<Longrightarrow> sound (snd (fst (emit_loop L a data i len this)))"
proof (induction L a data i len this rule: emit_loop.induct)
  case (1 L a data i len this)
  show ?case
  proof (cases "i < len \<and> i < length (arrays this ! a)")
    case False
    then show ?thesis using "1.prems" by (subst emit_loop.simps) auto
  next
    case True
    let ?t = "arrays this ! a ! i"
    obtain r this' where c: "call L (fst ?t) (snd ?t) data this = (r, this')"
      by (cases "call L (fst ?t) (snd ?t) data this")
    have s': "sound this'" using sound_call[OF "1.prems", of L "fst ?t" "snd ?t" data] c by simp
    show ?thesis
    proof (cases r)
      case None
      from "1.IH"[OF _ _ refl refl refl] True c None s'
      have "sound (snd (fst (emit_loop L a data (i + 1) len this')))" by simp
      then show ?thesis using True c None
        by (subst emit_loop.simps) (simp add: Let_def split_beta)
    next
      case (Some e)
      then show ?thesis using True c s' by (subst emit_loop.simps) (simp add: Let_def)
    qed
  qed
qed

lemma sound_emit: "sound this \<Longrightarrow> sound (snd (fst (emit L eventName data this)))"
  by (auto simp: emit_def sound_emit_loop split: option.splits)

lemma sound_perform: "sound this \<Longrightarrow> sound (perform L operation this)"
  by (cases operation) (simp_all add: sound_on sound_off sound_emit)

lemma sound_fold: "sound this \<Longrightarrow> sound (fold (perform L) ops this)"
  by (induction ops arbitrary: this) (simp_all add: sound_perform)

lemma sound_run: "sound (run L ops new_eventful)"
  by (simp add: run_def sound_fold sound_new)

subsection \<open>The shape of the map\<close>

lemma registry_ok_names:
  assumes "registry_ok this"
  shows "(name \<in> set (eventNames this)) = (callbacks_of this name \<noteq> [])"
proof (cases "eventMap this")
  case None
  then show ?thesis by (simp add: eventNames_def callbacks_of_def)
next
  case (Some m)
  show ?thesis
  proof (cases "map_of m name")
    case None
    then have "name \<notin> fst ` set m" by (simp add: map_of_eq_None_iff)
    then show ?thesis using Some None by (simp add: eventNames_def callbacks_of_def)
  next
    case a: (Some a)
    then have "name \<in> fst ` set m" by (metis map_of_eq_None_iff option.distinct(1))
    then show ?thesis using Some a registry_ok_addr(2)[OF assms Some a]
      by (simp add: eventNames_def callbacks_of_def)
  qed
qed

lemma registry_ok_null:
  assumes "registry_ok this"
  shows "(eventMap this = None) = (\<forall>name. callbacks_of this name = [])"
proof (cases "eventMap this")
  case None
  then show ?thesis by (simp add: callbacks_of_def)
next
  case (Some m)
  with assms have "m \<noteq> []" by (simp add: registry_ok_def)
  then obtain k where "k \<in> set (eventNames this)"
    using Some by (cases m) (auto simp: eventNames_def)
  then have "callbacks_of this k \<noteq> []" using registry_ok_names[OF assms] by simp
  then show ?thesis using Some by auto
qed

text \<open>
  Claim C8. After any sequence of calls of \<^verbatim>\<open>on\<close>, \<^verbatim>\<open>off\<close> and \<^verbatim>\<open>emit\<close> on a new
  instance, with any listeners: an event name is a key of the map exactly when it has an
  entry, and the map is \<^verbatim>\<open>null\<close> exactly when no event name has an entry. The map of a
  new instance is \<^verbatim>\<open>null\<close>.
\<close>

theorem map_minimal_after_any_calls:
  "(\<forall>name. (name \<in> set (eventNames (run L ops new_eventful))) =
            (callbacks_of (run L ops new_eventful) name \<noteq> [])) \<and>
   ((eventMap (run L ops new_eventful) = None) =
      (\<forall>name. callbacks_of (run L ops new_eventful) name = [])) \<and>
   eventMap (run L [] new_eventful) = None"
proof -
  have "registry_ok (run L ops new_eventful)"
    using sound_run[of L ops] by (simp add: sound_def)
  then show ?thesis
    using registry_ok_names registry_ok_null by (simp add: run_def new_eventful_def)
qed

lemma sound_no_undefined_callback:
  assumes "sound this"
  shows "(Undefined, ctx) \<notin> set (callbacks_of this name)"
proof (cases "eventMap this")
  case None
  then show ?thesis by (simp add: callbacks_of_def)
next
  case (Some m)
  show ?thesis
  proof (cases "map_of m name")
    case None
    then show ?thesis using Some by (simp add: callbacks_of_def)
  next
    case a: (Some a)
    from assms have ok: "registry_ok this" and fn: "callbacks_are_functions this"
      by (simp_all add: sound_def)
    have "a < length (arrays this)" using registry_ok_addr(1)[OF ok Some a] .
    then have "list_all (\<lambda>tuple. is_function (fst tuple)) (arrays this ! a)"
      using fn by (simp add: callbacks_are_functions_def list_all_length)
    then have "(Undefined, ctx) \<notin> set (arrays this ! a)"
      by (auto simp: list_all_iff)
    then show ?thesis using Some a by (simp add: callbacks_of_def)
  qed
qed

text \<open>
  Claim C10. \<^verbatim>\<open>off(eventName)\<close> with the callback left out, so \<^verbatim>\<open>undefined\<close>, on an
  instance reached by any sequence of calls, does not throw and leaves the instance as it
  is, whatever the context argument: every stored callback is a function, and none is
  \<^verbatim>\<open>undefined\<close>.
\<close>

theorem off_without_callback_changes_nothing:
  "off eventName Undefined context (run L ops new_eventful) = (None, run L ops new_eventful)"
  by (rule off_unchanged) (rule sound_no_undefined_callback, rule sound_run)

subsection \<open>emit with steady listeners\<close>

lemma run_body_error: "fst (run_body body this) = body_error body"
proof (induction body this rule: run_body.induct)
  case (1 this)
  then show ?case by simp
next
  case (2 eventName callback "context" rest this)
  show ?case
  proof (cases "is_function callback")
    case True
    obtain this' where o: "on eventName callback context this = (None, this')"
      using on_no_error[OF True, of eventName "context" this]
      by (cases "on eventName callback context this") auto
    with 2 True show ?thesis by simp
  next
    case False
    then show ?thesis by (simp add: on_def)
  qed
next
  case (3 eventName callback "context" rest this)
  obtain this' where o: "off eventName callback context this = (None, this')"
    using off_no_error[of eventName callback "context" this]
    by (cases "off eventName callback context this") auto
  with 3 show ?case by simp
next
  case (4 v rest this)
  then show ?case by simp
qed

lemma take_whole: "take (length ys) xs = ys \<Longrightarrow> length ys \<le> length xs"
  by (drule arg_cong[where f = length]) simp

lemma callbacks_of_address:
  "address_of this name = Some a \<Longrightarrow> callbacks_of this name = arrays this ! a"
  by (auto simp: address_of_def callbacks_of_def split: option.splits)

lemma on_address_of:
  assumes "registry_ok this" "address_of this name = Some a"
  shows "address_of (snd (on eventName callback context this)) name = Some a"
proof (cases "is_function callback")
  case False
  then show ?thesis using assms by (simp add: on_def)
next
  case True
  from assms(2) obtain m where m: "eventMap this = Some m" "map_of m name = Some a"
    by (auto simp: address_of_def split: option.splits)
  show ?thesis
  proof (cases "map_of m eventName")
    case None
    then show ?thesis using True m by (simp add: on_def address_of_def map_add_Some_iff)
  next
    case (Some a')
    then show ?thesis using True m by (simp add: on_def address_of_def)
  qed
qed

lemma off_address_of:
  assumes "registry_ok this" "address_of this name = Some a" "eventName \<noteq> name"
  shows "address_of (snd (off eventName callback context this)) name = Some a"
proof -
  from assms(2) obtain m where m: "eventMap this = Some m" "map_of m name = Some a"
    by (auto simp: address_of_def split: option.splits)
  have d: "map_of (AList.delete eventName m) name = Some a"
    using m(2) assms(3) by simp
  then have ne: "AList.delete eventName m \<noteq> []" by auto
  have ne': "m \<noteq> []" using m(2) by auto
  show ?thesis using m d ne ne'
    by (auto simp: off_def address_of_def Let_def split: option.splits)
qed

lemma pass_state_on:
  assumes "pass_state name a entries this"
  shows "pass_state name a entries (snd (on eventName callback context this))"
proof (cases "is_function callback")
  case False
  then show ?thesis using assms by (simp add: on_def)
next
  case True
  from assms have ok: "registry_ok this" and ad: "address_of this name = Some a"
    and tk: "take (length entries) (callbacks_of this name) = entries"
    by (simp_all add: pass_state_def)
  have len: "length entries \<le> length (callbacks_of this name)"
    using tk by (rule take_whole)
  have "take (length entries) (callbacks_of (snd (on eventName callback context this)) name) = entries"
    using on_callbacks_of[OF ok True, of eventName "context" name] tk len by auto
  then show ?thesis
    using on_registry_ok[OF ok] on_address_of[OF ok ad] by (simp add: pass_state_def)
qed

lemma pass_state_off:
  assumes "pass_state name a entries this" "eventName \<noteq> name"
  shows "pass_state name a entries (snd (off eventName callback context this))"
proof -
  from assms have ok: "registry_ok this" and ad: "address_of this name = Some a"
    and tk: "take (length entries) (callbacks_of this name) = entries"
    by (simp_all add: pass_state_def)
  have "callbacks_of (snd (off eventName callback context this)) name = callbacks_of this name"
    using off_callbacks_of[OF ok, of eventName callback "context" name] assms(2) by simp
  then show ?thesis
    using off_registry_ok[OF ok] off_address_of[OF ok ad assms(2)] tk by (simp add: pass_state_def)
qed

lemma pass_state_run_body:
  "pass_state name a entries this \<Longrightarrow> keeps name body \<Longrightarrow>
   pass_state name a entries (snd (run_body body this))"
proof (induction body this rule: run_body.induct)
  case (1 this)
  then show ?case by simp
next
  case (2 eventName callback "context" rest this)
  then show ?case using pass_state_on[OF "2.prems"(1), of eventName callback "context"]
    by (auto split: prod.splits option.splits)
next
  case (3 eventName callback "context" rest this)
  then show ?case using pass_state_off[OF "3.prems"(1), of eventName callback "context"]
    by (auto split: prod.splits option.splits)
next
  case (4 v rest this)
  then show ?case by simp
qed

lemma pass_Cons:
  "pass_invocations L data (tuple # rest) =
     invocation_of data tuple # (if returns L data tuple then pass_invocations L data rest else [])"
  "pass_error L data (tuple # rest) =
     (if returns L data tuple then pass_error L data rest else raised L data tuple)"
  by (simp_all add: pass_invocations_def pass_error_def)

lemma pass_Nil: "pass_invocations L data [] = []" "pass_error L data [] = None"
  by (simp_all add: pass_invocations_def pass_error_def)

lemma emit_loop_steady:
  assumes "pass_state name a entries this" "list_all (steady L name data) entries"
    and "len = length entries"
  shows "fst (fst (emit_loop L a data i len this)) = pass_error L data (drop i entries) \<and>
         snd (emit_loop L a data i len this) = pass_invocations L data (drop i entries)"
  using assms(1)
proof (induction "len - i" arbitrary: i this)
  case 0
  then show ?case using assms(3) by (subst (1 2) emit_loop.simps) (simp add: pass_Nil)
next
  case (Suc n)
  then have lt: "i < len" and n: "n = len - (i + 1)" by simp_all
  from Suc.prems have ad: "address_of this name = Some a"
    and tk: "take len (callbacks_of this name) = entries"
    by (simp_all add: pass_state_def assms(3))
  have arr: "callbacks_of this name = arrays this ! a" using ad by (rule callbacks_of_address)
  have lenle: "len \<le> length (arrays this ! a)"
    using take_whole[of entries "callbacks_of this name"] tk arr assms(3) by simp
  let ?t = "arrays this ! a ! i"
  have t: "?t = entries ! i" using tk arr lt by (metis nth_take)
  have st: "steady L name data ?t" using assms(2,3) lt t by (simp add: list_all_length)
  then obtain f where f: "fst ?t = Fn f" and k: "keeps name (L f (snd ?t) data)"
    by (cases "fst ?t") (simp_all add: steady_def)
  have c: "call L (fst ?t) (snd ?t) data this = run_body (L f (snd ?t) data) this"
    using f by (simp add: call_def)
  have r: "fst (run_body (L f (snd ?t) data) this) = raised L data ?t"
    using f by (simp add: run_body_error raised_def)
  have d: "drop i entries = ?t # drop (i + 1) entries"
    using lt assms(3) t by (simp add: Cons_nth_drop_Suc)
  obtain e this' where rb: "run_body (L f (snd ?t) data) this = (e, this')"
    by (cases "run_body (L f (snd ?t) data) this")
  have e: "e = raised L data ?t" using r rb by simp
  have ps': "pass_state name a entries this'"
    using pass_state_run_body[OF Suc.prems k] rb by simp
  show ?case
  proof (cases e)
    case None
    then have ret: "returns L data ?t" using e by (simp add: returns_def)
    from Suc.hyps(1)[OF n ps'] ret lt lenle c rb None d show ?thesis
      by (subst (1 2) emit_loop.simps) (simp add: Let_def split_beta pass_Cons invocation_of_def)
  next
    case (Some err)
    then have nret: "\<not> returns L data ?t" using e by (simp add: returns_def)
    from nret lt lenle c rb Some e d show ?thesis
      by (subst (1 2) emit_loop.simps) (simp add: Let_def pass_Cons invocation_of_def)
  qed
qed

lemma emit_steady:
  assumes "registry_ok this" "list_all (steady L name data) (callbacks_of this name)"
  shows "fst (fst (emit L name data this)) = pass_error L data (callbacks_of this name) \<and>
         snd (emit L name data this) = pass_invocations L data (callbacks_of this name)"
proof (cases "address_of this name")
  case None
  then show ?thesis
    by (auto simp: emit_def callbacks_of_def address_of_def pass_Nil split: option.splits)
next
  case (Some a)
  have arr: "callbacks_of this name = arrays this ! a" using Some by (rule callbacks_of_address)
  have ps: "pass_state name a (callbacks_of this name) this"
    using assms(1) Some by (simp add: pass_state_def)
  have "emit L name data this = emit_loop L a data 0 (length (callbacks_of this name)) this"
    using Some arr by (auto simp: emit_def address_of_def split: option.splits)
  with emit_loop_steady[OF ps assms(2) refl, of 0] show ?thesis by simp
qed

lemma pass_all_return:
  "list_all (returns L data) entries \<Longrightarrow>
   pass_error L data entries = None \<and>
   pass_invocations L data entries = map (invocation_of data) entries"
  by (induction entries) (simp_all add: pass_Nil pass_Cons)


lemma steady_is_function: "steady L name data tuple \<Longrightarrow> is_function (fst tuple)"
  by (cases "fst tuple") (simp_all add: steady_def)

lemma subscribe_all_functions:
  assumes "registry_ok this" "list_all (\<lambda>tuple. is_function (fst tuple)) pairs"
  shows "fst (subscribe_all eventName pairs this) = None \<and>
         registry_ok (snd (subscribe_all eventName pairs this)) \<and>
         callbacks_of (snd (subscribe_all eventName pairs this)) name =
           (if name = eventName then callbacks_of this eventName @ pairs
            else callbacks_of this name)"
  using assms
proof (induction pairs arbitrary: this)
  case Nil
  then show ?case by simp
next
  case (Cons tuple rest)
  then have fn: "is_function (fst tuple)" and rest: "list_all (\<lambda>tuple. is_function (fst tuple)) rest"
    by simp_all
  obtain this' where o: "on eventName (fst tuple) (snd tuple) this = (None, this')"
    using on_no_error[OF fn, of eventName "snd tuple" this]
    by (cases "on eventName (fst tuple) (snd tuple) this") auto
  have ok': "registry_ok this'"
    using on_registry_ok[OF Cons.prems(1), of eventName "fst tuple" "snd tuple"] o by simp
  have cb': "\<And>name. callbacks_of this' name =
           (if name = eventName then callbacks_of this eventName @ [tuple]
            else callbacks_of this name)"
    using on_callbacks_of[OF Cons.prems(1) fn, of eventName "snd tuple"] o by simp
  from Cons.IH[OF ok' rest] o cb' show ?case by simp
qed

text \<open>
  Claim C2, as amended. On an instance whose entries for \<open>name\<close> are
  \<open>callbacks_of this name\<close>, the calls \<^verbatim>\<open>on(name, cb, ctx)\<close> for the pairs of a list, in
  turn, all return. In the \<^verbatim>\<open>emit(name, payload)\<close> that follows, where no listener calls
  \<^verbatim>\<open>off\<close> for \<open>name\<close>, the entries that were there and then the pairs of the list are
  called in that order, each at most once, with the entry's context as receiver and
  \<open>payload\<close> as argument, up to and with the first whose listener throws; what it throws
  is what \<^verbatim>\<open>emit\<close> throws. When no listener throws, \<^verbatim>\<open>emit\<close> returns and has called
  every entry exactly once. Listeners may subscribe, and unsubscribe from other names.
\<close>

theorem emit_calls_registered_in_order:
  assumes "registry_ok this"
    and "list_all (steady L name payload) (callbacks_of this name @ pairs)"
  shows "fst (subscribe_all name pairs this) = None \<and>
         fst (fst (emit L name payload (snd (subscribe_all name pairs this)))) =
           pass_error L payload (callbacks_of this name @ pairs) \<and>
         snd (emit L name payload (snd (subscribe_all name pairs this))) =
           pass_invocations L payload (callbacks_of this name @ pairs) \<and>
         (list_all (returns L payload) (callbacks_of this name @ pairs) \<longrightarrow>
            fst (fst (emit L name payload (snd (subscribe_all name pairs this)))) = None \<and>
            snd (emit L name payload (snd (subscribe_all name pairs this))) =
              map (invocation_of payload) (callbacks_of this name @ pairs))"
proof -
  let ?s = "snd (subscribe_all name pairs this)"
  have fn: "list_all (\<lambda>tuple. is_function (fst tuple)) pairs"
    using assms(2) by (auto simp: list_all_iff intro: steady_is_function)
  note s = subscribe_all_functions[OF assms(1) fn, of name name]
  have cb: "callbacks_of ?s name = callbacks_of this name @ pairs" using s by simp
  have ok: "registry_ok ?s" using s by simp
  have st: "list_all (steady L name payload) (callbacks_of ?s name)"
    using assms(2) by (simp add: cb)
  from emit_steady[OF ok st] s pass_all_return[of L payload "callbacks_of this name @ pairs"]
  show ?thesis by (simp add: cb)
qed

theorem emit_calls_registered_in_order_witness:
  "registry_ok new_eventful \<and>
   list_all (steady throws ''foo'' (Num 56))
     (callbacks_of new_eventful ''foo'' @ [(Fn 2, Obj 1), (Fn 1, Obj 2), (Fn 3, Undefined)]) \<and>
   fst (fst (emit throws ''foo'' (Num 56)
     (snd (subscribe_all ''foo'' [(Fn 2, Obj 1), (Fn 1, Obj 2), (Fn 3, Undefined)] new_eventful)))) =
     Some (Thrown (Str ''boom'')) \<and>
   snd (emit throws ''foo'' (Num 56)
     (snd (subscribe_all ''foo'' [(Fn 2, Obj 1), (Fn 1, Obj 2), (Fn 3, Undefined)] new_eventful))) =
     [(Fn 2, Obj 1, Num 56), (Fn 1, Obj 2, Num 56)] \<and>
   list_all (steady subscribes_more ''x'' (Num 56))
     (callbacks_of new_eventful ''x'' @ [(Fn 1, Obj 1), (Fn 1, Obj 2), (Fn 2, Undefined)]) \<and>
   list_all (returns subscribes_more (Num 56))
     (callbacks_of new_eventful ''x'' @ [(Fn 1, Obj 1), (Fn 1, Obj 2), (Fn 2, Undefined)]) \<and>
   fst (fst (emit subscribes_more ''x'' (Num 56)
     (snd (subscribe_all ''x'' [(Fn 1, Obj 1), (Fn 1, Obj 2), (Fn 2, Undefined)] new_eventful)))) =
     None \<and>
   snd (emit subscribes_more ''x'' (Num 56)
     (snd (subscribe_all ''x'' [(Fn 1, Obj 1), (Fn 1, Obj 2), (Fn 2, Undefined)] new_eventful))) =
     [(Fn 1, Obj 1, Num 56), (Fn 1, Obj 2, Num 56), (Fn 2, Undefined, Num 56)]"
proof -
  have ok: "registry_ok new_eventful" by (simp add: registry_ok_def new_eventful_def)
  have e: "callbacks_of new_eventful ''foo'' = []" "callbacks_of new_eventful ''x'' = []"
    by (simp_all add: callbacks_of_def new_eventful_def)
  have t: "list_all (steady throws ''foo'' (Num 56))
     (callbacks_of new_eventful ''foo'' @ [(Fn 2, Obj 1), (Fn 1, Obj 2), (Fn 3, Undefined)])"
    by (simp add: e steady_def throws_def)
  have m: "list_all (steady subscribes_more ''x'' (Num 56))
     (callbacks_of new_eventful ''x'' @ [(Fn 1, Obj 1), (Fn 1, Obj 2), (Fn 2, Undefined)])"
    by (simp add: e steady_def subscribes_more_def)
  have r: "list_all (returns subscribes_more (Num 56))
     (callbacks_of new_eventful ''x'' @ [(Fn 1, Obj 1), (Fn 1, Obj 2), (Fn 2, Undefined)])"
    by (simp add: e returns_def raised_def subscribes_more_def)
  from emit_calls_registered_in_order[OF ok t] emit_calls_registered_in_order[OF ok m] ok t m r
  show ?thesis
    by (simp add: e pass_error_def pass_invocations_def returns_def raised_def throws_def
        invocation_of_def)
qed

text \<open>
  Claim C2 as stated fails: functions 1 and 2 are subscribed in that order and function 1
  throws; \<^verbatim>\<open>emit\<close> calls function 1, throws what it threw, and never calls function 2.
\<close>

theorem emit_stops_at_throwing_listener:
  "emit throws ''x'' (Num 7)
     (snd (subscribe_all ''x'' [(Fn 1, Undefined), (Fn 2, Undefined)] new_eventful)) =
   ((Some (Thrown (Str ''boom'')),
     \<lparr>eventMap = Some [(''x'', 0)], arrays = [[(Fn 1, Undefined), (Fn 2, Undefined)]]\<rparr>),
    [(Fn 1, Undefined, Num 7)])"
  by (simp add: emit_def emit_loop.simps on_def call_def new_eventful_def throws_def Let_def)

subsection \<open>off, and subscribing a pair twice\<close>

lemma remove1_last_match: "count_list xs x \<le> 1 \<Longrightarrow> x \<notin> set (remove1 x xs)"
  by (induction xs) (auto simp: count_list_0_iff split: if_splits)



text \<open>
  Claim C6, as amended. \<^verbatim>\<open>off(eventName, callback, context)\<close> never throws. It removes
  at most one entry: the first, in insertion order, of the entries of \<open>eventName\<close> whose
  callback and context are both \<^verbatim>\<open>===\<close> to the arguments (\<open>remove1\<close>), and the entries
  of every other event name stay as they are. With no map, no entries for \<open>eventName\<close> or
  no entry that matches, the instance is left as it is. A second identical call is a no-op
  when the pair was subscribed at most once; a pair subscribed more often loses one more
  entry with each call.
\<close>

theorem off_removes_first_match:
  assumes "registry_ok this"
  shows "fst (off eventName callback context this) = None \<and>
         (\<forall>name. callbacks_of (snd (off eventName callback context this)) name =
            (if name = eventName
             then remove1 (callback, context) (callbacks_of this eventName)
             else callbacks_of this name)) \<and>
         ((callback, context) \<notin> set (callbacks_of this eventName) \<longrightarrow>
            off eventName callback context this = (None, this)) \<and>
         (count_list (callbacks_of this eventName) (callback, context) \<le> 1 \<longrightarrow>
            off eventName callback context (snd (off eventName callback context this)) =
              (None, snd (off eventName callback context this)))"
proof -
  let ?this' = "snd (off eventName callback context this)"
  have cb: "callbacks_of ?this' eventName = remove1 (callback, context) (callbacks_of this eventName)"
    using off_callbacks_of[OF assms, of eventName callback "context" eventName] by simp
  have "count_list (callbacks_of this eventName) (callback, context) \<le> 1 \<Longrightarrow>
        off eventName callback context ?this' = (None, ?this')"
    by (rule off_unchanged) (simp add: cb remove1_last_match)
  then show ?thesis
    using off_no_error off_callbacks_of[OF assms] off_unchanged by simp
qed


theorem off_removes_first_match_witness:
  "registry_ok \<lparr>eventMap = Some [(''x'', 0)], arrays = [[(Fn 1, Obj 1), (Fn 2, Obj 1)]]\<rparr> \<and>
   count_list [(Fn 1, Obj 1), (Fn 2, Obj 1)] (Fn 1, Obj 1) \<le> 1 \<and>
   (Fn 3, Obj 1) \<notin> set [(Fn 1, Obj 1), (Fn 2, Obj 1)] \<and>
   callbacks_of (snd (off ''x'' (Fn 1) (Obj 1)
       \<lparr>eventMap = Some [(''x'', 0)], arrays = [[(Fn 1, Obj 1), (Fn 2, Obj 1)]]\<rparr>)) ''x'' =
     [(Fn 2, Obj 1)] \<and>
   off ''x'' (Fn 1) (Obj 1) (snd (off ''x'' (Fn 1) (Obj 1)
       \<lparr>eventMap = Some [(''x'', 0)], arrays = [[(Fn 1, Obj 1), (Fn 2, Obj 1)]]\<rparr>)) =
     (None, snd (off ''x'' (Fn 1) (Obj 1)
       \<lparr>eventMap = Some [(''x'', 0)], arrays = [[(Fn 1, Obj 1), (Fn 2, Obj 1)]]\<rparr>)) \<and>
   off ''x'' (Fn 3) (Obj 1)
       \<lparr>eventMap = Some [(''x'', 0)], arrays = [[(Fn 1, Obj 1), (Fn 2, Obj 1)]]\<rparr> =
     (None, \<lparr>eventMap = Some [(''x'', 0)], arrays = [[(Fn 1, Obj 1), (Fn 2, Obj 1)]]\<rparr>)"
proof -
  let ?S = "\<lparr>eventMap = Some [(''x'', 0)], arrays = [[(Fn 1, Obj 1), (Fn 2, Obj 1)]]\<rparr>"
  have ok: "registry_ok ?S" by (simp add: registry_ok_def)
  have cb: "callbacks_of ?S ''x'' = [(Fn 1, Obj 1), (Fn 2, Obj 1)]" by (simp add: callbacks_of_def)
  from off_removes_first_match[OF ok, of "''x''" "Fn 1" "Obj 1"]
       off_removes_first_match[OF ok, of "''x''" "Fn 3" "Obj 1"] ok cb
  show ?thesis by simp
qed

text \<open>
  Claim C6 as stated fails: after \<^verbatim>\<open>on('x', f)\<close> twice, the first \<^verbatim>\<open>off('x', f)\<close> leaves
  one entry and the second identical call removes it, so the second call is no no-op.
\<close>

theorem second_off_removes_duplicate:
  "callbacks_of (snd (off ''x'' (Fn 1) Undefined
      (snd (on ''x'' (Fn 1) Undefined (snd (on ''x'' (Fn 1) Undefined new_eventful)))))) ''x'' =
     [(Fn 1, Undefined)] \<and>
   callbacks_of (snd (off ''x'' (Fn 1) Undefined (snd (off ''x'' (Fn 1) Undefined
      (snd (on ''x'' (Fn 1) Undefined (snd (on ''x'' (Fn 1) Undefined new_eventful)))))))) ''x'' =
     [] \<and>
   off ''x'' (Fn 1) Undefined (snd (off ''x'' (Fn 1) Undefined
      (snd (on ''x'' (Fn 1) Undefined (snd (on ''x'' (Fn 1) Undefined new_eventful)))))) \<noteq>
     (None, snd (off ''x'' (Fn 1) Undefined
      (snd (on ''x'' (Fn 1) Undefined (snd (on ''x'' (Fn 1) Undefined new_eventful))))))"
  by (simp add: on_def off_def new_eventful_def splice1_def callbacks_of_def)




subsection \<open>A listener that unsubscribes itself\<close>

text \<open>
  Claim C1 at a failing input. Functions 1 and 2 are subscribed to \<open>x\<close>, in that order,
  and the body of function 1 unsubscribes function 1. \<^verbatim>\<open>emit('x', 7)\<close> over the array
  calls function 1, whose \<^verbatim>\<open>off\<close> splices the array to one element; the loop then reads
  index 1 past its end and throws a TypeError. Function 2, subscribed when \<^verbatim>\<open>emit\<close> began
  and still subscribed, is never called.
\<close>

theorem emit_faults_when_listener_unsubscribes_itself:
  "emit unsubscribes_itself ''x'' (Num 7)
     (snd (on ''x'' (Fn 2) Undefined (snd (on ''x'' (Fn 1) Undefined new_eventful)))) =
   ((Some (TypeError ''Cannot read properties of undefined''),
     \<lparr>eventMap = Some [(''x'', 0)], arrays = [[(Fn 2, Undefined)]]\<rparr>),
    [(Fn 1, Undefined, Num 7)])"
  by (simp add: emit_def emit_loop.simps on_def off_def call_def new_eventful_def
      unsubscribes_itself_def splice1_def)

text \<open>The emit over a copy of the Set, at the same input, calls both and returns.\<close>

lemma emit_Set_when_listener_unsubscribes_itself:
  "emit_Set unsubscribes_itself ''x'' (Num 7)
     (snd (on ''x'' (Fn 2) Undefined (snd (on ''x'' (Fn 1) Undefined new_eventful)))) =
   ((None, \<lparr>eventMap = Some [(''x'', 0)], arrays = [[(Fn 2, Undefined)]]\<rparr>),
    [(Fn 1, Undefined, Num 7), (Fn 2, Undefined, Num 7)])"
  by (simp add: emit_Set_def on_def off_def call_def new_eventful_def
      unsubscribes_itself_def splice1_def)

text \<open>
  Whatever the listeners do, the emit over a copy of the Set calls entries that were
  subscribed when it began, in their order and each once, up to the first listener that
  throws, and all of them when it returns.
\<close>

lemma dispatch_Set_returned:
  "fst (fst (dispatch_Set L snapshot data this)) = None \<Longrightarrow>
   snd (dispatch_Set L snapshot data this) = map (invocation_of data) snapshot"
proof (induction snapshot arbitrary: this)
  case Nil
  then show ?case by simp
next
  case (Cons tuple rest)
  obtain r this' where c: "call L (fst tuple) (snd tuple) data this = (r, this')"
    by (cases "call L (fst tuple) (snd tuple) data this")
  show ?case
  proof (cases r)
    case None
    with Cons.prems c have "fst (fst (dispatch_Set L rest data this')) = None"
      by (simp add: Let_def split_beta)
    from Cons.IH[OF this] c None show ?thesis
      by (simp add: Let_def split_beta invocation_of_def)
  next
    case (Some e)
    with Cons.prems c show ?thesis by (simp add: Let_def)
  qed
qed

lemma dispatch_Set_prefix:
  "\<exists>n. snd (dispatch_Set L snapshot data this) = map (invocation_of data) (take n snapshot)"
proof (induction snapshot arbitrary: this)
  case Nil
  then show ?case by simp
next
  case (Cons tuple rest)
  obtain r this' where c: "call L (fst tuple) (snd tuple) data this = (r, this')"
    by (cases "call L (fst tuple) (snd tuple) data this")
  show ?case
  proof (cases r)
    case None
    from Cons.IH[of this'] obtain n where
      "snd (dispatch_Set L rest data this') = map (invocation_of data) (take n rest)" by blast
    with c None have "snd (dispatch_Set L (tuple # rest) data this) =
        map (invocation_of data) (take (Suc n) (tuple # rest))"
      by (simp add: Let_def split_beta invocation_of_def)
    then show ?thesis by blast
  next
    case (Some e)
    with c have "snd (dispatch_Set L (tuple # rest) data this) =
        map (invocation_of data) (take 1 (tuple # rest))"
      by (simp add: Let_def invocation_of_def)
    then show ?thesis by blast
  qed
qed

lemma emit_Set_snapshot:
  "(\<exists>n. snd (emit_Set L eventName data this) =
          map (invocation_of data) (take n (callbacks_of this eventName))) \<and>
   (fst (fst (emit_Set L eventName data this)) = None \<longrightarrow>
      snd (emit_Set L eventName data this) =
        map (invocation_of data) (callbacks_of this eventName))"
proof (cases "eventMap this")
  case None
  then show ?thesis by (simp add: emit_Set_def callbacks_of_def)
next
  case (Some m)
  show ?thesis
  proof (cases "map_of m eventName")
    case None
    then show ?thesis using Some by (simp add: emit_Set_def callbacks_of_def)
  next
    case a: (Some a)
    then show ?thesis
      using Some dispatch_Set_prefix[of L "arrays this ! a" data this]
        dispatch_Set_returned[of L "arrays this ! a" data this]
      by (simp add: emit_Set_def callbacks_of_def)
  qed
qed

subsection \<open>on with a callback that is not a function\<close>

text \<open>
  Claim C9. \<^verbatim>\<open>on(eventName, callback, context)\<close> with a callback that is not a function
  throws the Error at once, and the instance is as it was before the call: the map is
  neither created nor changed, and no array is.
\<close>

theorem on_rejects_non_function:
  "\<not> is_function callback \<Longrightarrow>
   on eventName callback context this =
     (Some (Error ''Expected a function in callback argument of Eventful#on.''), this)"
  by (simp add: on_def)

theorem on_rejects_non_function_witness:
  "\<not> is_function (Str ''not a function'') \<and>
   on ''resize'' (Str ''not a function'') Undefined new_eventful =
     (Some (Error ''Expected a function in callback argument of Eventful#on.''), new_eventful) \<and>
   eventMap (snd (on ''resize'' (Str ''not a function'') Undefined new_eventful)) = None"
  using on_rejects_non_function [of "Str ''not a function''" "''resize''" Undefined new_eventful]
  by (simp add: new_eventful_def)

section \<open>Properties of the instance test\<close>

lemma map_of_fold_update:
  "map_of own k = None \<Longrightarrow>
   map_of (fold (\<lambda>(k, v). AList.update k v) own fs) k = map_of fs k"
proof (induction own arbitrary: fs)
  case Nil
  then show ?case by simp
next
  case (Cons p own)
  obtain k' v' where p: "p = (k', v')" by (cases p)
  with Cons.prems have ne: "k' \<noteq> k" and rest: "map_of own k = None"
    by (auto split: if_splits)
  show ?case using Cons.IH[OF rest, of "AList.update k' v' fs"] ne p
    by (simp add: update_conv')
qed

lemma derived_own_isEventful:
  assumes "list_all plain_body bodies"
  shows "map_of (own_fields (derived C bodies)) (SymbolKey isEventful) =
         map_of (own_fields C) (SymbolKey isEventful)"
  using assms unfolding derived_def
proof (induction bodies arbitrary: C)
  case Nil
  then show ?case by simp
next
  case (Cons body bodies)
  then have pb: "plain_body body" and r: "list_all plain_body bodies" by simp_all
  from pb have b: "map_of (snd body) (SymbolKey isEventful) = None" by (simp add: plain_body_def)
  have "map_of (own_fields (extend_class C body)) (SymbolKey isEventful) =
        map_of (own_fields C) (SymbolKey isEventful)"
    using map_of_fold_update[OF b] by (simp add: extend_class_def)
  with Cons.IH[OF r, of "extend_class C body"] show ?case by simp
qed

lemma Eventful_own_isEventful:
  "map_of (own_fields (Eventful Base)) (SymbolKey isEventful) = Some (Sym isEventful)"
  by (simp add: Eventful_def update_conv')

lemma lookup_chain_plain:
  "list_all plain_layer chain \<Longrightarrow> lookup_chain chain (SymbolKey isEventful) = Undefined"
  by (induction chain) (simp_all add: plain_layer_def)

lemma derived_prototype_isEventful:
  assumes "list_all plain_body bodies"
    and "lookup_chain (prototype C) (SymbolKey isEventful) = Sym isEventful"
  shows "lookup_chain (prototype (derived C bodies)) (SymbolKey isEventful) = Sym isEventful"
  using assms unfolding derived_def
proof (induction bodies arbitrary: C)
  case Nil
  then show ?case by simp
next
  case (Cons body bodies)
  then have pb: "plain_body body" and r: "list_all plain_body bodies" by simp_all
  from pb have b: "map_of (fst body) (SymbolKey isEventful) = None" by (simp add: plain_body_def)
  have "lookup_chain (prototype (extend_class C body)) (SymbolKey isEventful) = Sym isEventful"
    using b Cons.prems(2) by (simp add: extend_class_def)
  with Cons.IH[OF r, of "extend_class C body"] show ?case by simp
qed

lemma Eventful_prototype_isEventful:
  "lookup_chain (prototype (Eventful Base)) (SymbolKey isEventful) = Sym isEventful"
  by (simp add: Eventful_def)

lemma prototype_instanceof_Eventful:
  "list_all plain_body bodies \<Longrightarrow>
   hasInstance (Object (prototype (derived (Eventful Base) bodies)))"
  by (simp add: hasInstance_def derived_prototype_isEventful Eventful_prototype_isEventful)

text \<open>
  Claim C5. \<^verbatim>\<open>obj instanceof Eventful\<close> is true for every object constructed from
  \<^verbatim>\<open>Eventful(Base)\<close>, whatever the base class, and from every class derived from it
  through any number of further subclasses whose bodies declare nothing under the
  module's symbol. It is false for an object that has no property under that symbol
  anywhere on its chain, whatever methods it has under string names, and for every
  primitive.
\<close>

theorem instanceof_Eventful:
  "(list_all plain_body bodies \<longrightarrow> hasInstance (construct (derived (Eventful Base) bodies))) \<and>
   (list_all plain_layer chain \<longrightarrow> \<not> hasInstance (Object chain)) \<and>
   \<not> hasInstance (Primitive v)"
proof -
  have "hasInstance (construct (derived (Eventful Base) bodies))" if "list_all plain_body bodies"
    using derived_own_isEventful[OF that, of "Eventful Base"]
    by (simp add: hasInstance_def construct_def Eventful_own_isEventful)
  moreover have "\<not> hasInstance (Object chain)" if "list_all plain_layer chain"
    using lookup_chain_plain[OF that] by (simp add: hasInstance_def)
  moreover have "\<not> hasInstance (Primitive v)"
    by (simp add: hasInstance_def)
  ultimately show ?thesis by blast
qed

theorem instanceof_Eventful_witness:
  "list_all plain_body
     [([(StringKey ''speak'', Fn 20)], [(StringKey ''name'', Str ''rex'')]),
      ([(StringKey ''on'', Fn 21)], [(StringKey ''isEventful'', Bool False)])] \<and>
   hasInstance (construct (derived (Eventful Array_class)
     [([(StringKey ''speak'', Fn 20)], [(StringKey ''name'', Str ''rex'')]),
      ([(StringKey ''on'', Fn 21)], [(StringKey ''isEventful'', Bool False)])])) \<and>
   hasInstance (construct (derived (Eventful Array_class) [])) \<and>
   list_all plain_layer
     [[(StringKey ''on'', Fn 30), (StringKey ''off'', Fn 31), (StringKey ''emit'', Fn 32),
       (StringKey ''isEventful'', Bool True)],
      [(StringKey ''toString'', Fn 12)]] \<and>
   \<not> hasInstance (Object
     [[(StringKey ''on'', Fn 30), (StringKey ''off'', Fn 31), (StringKey ''emit'', Fn 32),
       (StringKey ''isEventful'', Bool True)],
      [(StringKey ''toString'', Fn 12)]])"
proof -
  let ?bodies = "[([(StringKey ''speak'', Fn 20)], [(StringKey ''name'', Str ''rex'')]),
      ([(StringKey ''on'', Fn 21)], [(StringKey ''isEventful'', Bool False)])]"
  let ?chain = "[[(StringKey ''on'', Fn 30), (StringKey ''off'', Fn 31), (StringKey ''emit'', Fn 32),
       (StringKey ''isEventful'', Bool True)],
      [(StringKey ''toString'', Fn 12)]]"
  have b: "list_all plain_body ?bodies" by (simp add: plain_body_def)
  have e: "list_all plain_body []" by simp
  have c: "list_all plain_layer ?chain" by (simp add: plain_layer_def)
  from instanceof_Eventful[of ?bodies Array_class ?chain Undefined]
       instanceof_Eventful[of "[]" Array_class ?chain Undefined] b e c
  show ?thesis by simp
qed

section \<open>Properties of the decorator\<close>








text \<open>
  Claim C3 at a failing input. A class has the writable field \<^verbatim>\<open>foo\<close> with the initial
  value 123 under \<^verbatim>\<open>@emits\<close>, and two objects, 1 and 2. The first read on object 1 gives
  123 and sets \<^verbatim>\<open>initialValueIsSet\<close>, which all objects of the class share; the first
  read on object 2 then gives the \<^verbatim>\<open>undefined\<close> of its unassigned slot, not 123. The same
  happens when object 1 is written before object 2 is first read.
\<close>

theorem first_read_on_second_object:
  "emits (Object (prototype (Eventful Array_class))) (Some (DataDescriptor (Num 123) True)) =
     (Inr (Replaced (Field (Num 123))) :: error + unit decorated) \<and>
   fst (prop_get (Field (Num 123)) 1 (new_world instances_of_0 (every ()))) = Inr (Num 123) \<and>
   fst (prop_get (Field (Num 123)) 2
         (snd (prop_get (Field (Num 123)) 1 (new_world instances_of_0 (every ()))))) =
     Inr Undefined \<and>
   fst (prop_get (Field (Num 123)) 2
         (snd (prop_set (Field (Num 123)) ''change'' ''foo'' 1 (Num 456)
            (new_world instances_of_0 (every ()))))) =
     Inr Undefined"
  by (simp add: emits_def hasInstance_def Eventful_def new_world_def instances_of_0_def
      every_def)

text \<open>
  When the first read is on the prototype itself, the slot is set there and object 2
  reads it through its chain.
\<close>

lemma read_after_first_read_on_prototype:
  "fst (prop_get (Field (Num 123)) 2
         (snd (prop_get (Field (Num 123)) 0 (new_world instances_of_0 (every ()))))) =
     Inr (Num 123)"
  by (simp add: new_world_def instances_of_0_def every_def)

end
